theory Spec2Isabelle
  imports Main "HOL-Library.Word"
begin

section \<open>Outcomes of a JavaScript computation\<close>

text \<open>
  A call of the source either returns a value, throws, or never returns. \<open>Error\<close> carries
  the message of \<^verbatim>\<open>new Error(msg)\<close>, or of the error a promise rejects with.
\<close>

datatype error = Error string

datatype 'a outcome = Returns 'a | Throws error | Diverges

definition andThen :: "'a outcome \<Rightarrow> ('a \<Rightarrow> 'b outcome) \<Rightarrow> 'b outcome" where
  "andThen x f = (case x of Returns v \<Rightarrow> f v | Throws e \<Rightarrow> Throws e | Diverges \<Rightarrow> Diverges)"

section \<open>Regular expressions as the source uses them\<close>

text \<open>
  Strings are lists of characters; a character stands for one code unit of the JavaScript
  string (HOL's \<open>char\<close> has the code units 0 to 255). The source's patterns use literal
  text, the classes \<^verbatim>\<open>[\s\S]\<close>, \<^verbatim>\<open>[^c]\<close>, \<^verbatim>\<open>\s\<close> and \<^verbatim>\<open>\d\<close>
  under \<^verbatim>\<open>*\<close>, \<^verbatim>\<open>+\<close> and \<^verbatim>\<open>*?\<close>, capture groups, sequence and alternation.
\<close>

datatype cclass = AnyChar | NotCh char | Space | Digit

fun inClass :: "cclass \<Rightarrow> char \<Rightarrow> bool" where
  "inClass AnyChar x = True"
| "inClass (NotCh c) x = (x \<noteq> c)"
| "inClass Space x = (x \<in> {CHR 0x09, CHR 0x0A, CHR 0x0B, CHR 0x0C, CHR 0x0D, CHR '' '', CHR 0xA0})"
| "inClass Digit x = (x \<in> set ''0123456789'')"

datatype regex =
    Lit string
  | Star cclass
  | Plus cclass
  | Lazy cclass
  | Group nat regex
  | Seq regex regex
  | Alt regex regex

text \<open>Capture groups: the latest binding of a group number is first in the list.\<close>

type_synonym captures = "(nat \<times> string) list"

text \<open>\<open>stripPrefix l s\<close> is the rest of \<open>s\<close> after the literal \<open>l\<close>, when \<open>s\<close> starts with it.\<close>

fun stripPrefix :: "string \<Rightarrow> string \<Rightarrow> string option" where
  "stripPrefix [] s = Some s"
| "stripPrefix (x # xs) [] = None"
| "stripPrefix (x # xs) (y # ys) = (if x = y then stripPrefix xs ys else None)"

text \<open>
  The ways a quantified class can split the input into (matched text, rest), in the order
  a backtracking matcher tries them: the greedy quantifiers longest first, the lazy one
  shortest first.
\<close>

fun greedy :: "cclass \<Rightarrow> string \<Rightarrow> (string \<times> string) list" where
  "greedy k [] = [([], [])]"
| "greedy k (x # xs) =
     (if inClass k x then map (\<lambda>(w, r). (x # w, r)) (greedy k xs) @ [([], x # xs)]
      else [([], x # xs)])"

fun greedy1 :: "cclass \<Rightarrow> string \<Rightarrow> (string \<times> string) list" where
  "greedy1 k [] = []"
| "greedy1 k (x # xs) =
     (if inClass k x then map (\<lambda>(w, r). (x # w, r)) (greedy k xs) else [])"

fun lazy :: "cclass \<Rightarrow> string \<Rightarrow> (string \<times> string) list" where
  "lazy k [] = [([], [])]"
| "lazy k (x # xs) =
     ([], x # xs) # (if inClass k x then map (\<lambda>(w, r). (x # w, r)) (lazy k xs) else [])"

text \<open>
  \<open>ms r c s\<close> lists every way \<open>r\<close> matches a prefix of \<open>s\<close>, starting with the captures
  \<open>c\<close>, as (captures, matched text, rest), in the order in which a backtracking matcher
  finds them. The first entry is the match JavaScript reports at this position.
\<close>

fun ms :: "regex \<Rightarrow> captures \<Rightarrow> string \<Rightarrow> (captures \<times> string \<times> string) list" where
  "ms (Lit l) c s = (case stripPrefix l s of None \<Rightarrow> [] | Some r \<Rightarrow> [(c, l, r)])"
| "ms (Star k) c s = map (\<lambda>(w, r). (c, w, r)) (greedy k s)"
| "ms (Plus k) c s = map (\<lambda>(w, r). (c, w, r)) (greedy1 k s)"
| "ms (Lazy k) c s = map (\<lambda>(w, r). (c, w, r)) (lazy k s)"
| "ms (Group g r) c s = map (\<lambda>(c', w, s'). ((g, w) # c', w, s')) (ms r c s)"
| "ms (Seq a b) c s =
     concat (map (\<lambda>(c1, w1, s1). map (\<lambda>(c2, w2, s2). (c2, w1 @ w2, s2)) (ms b c1 s1)) (ms a c s))"
| "ms (Alt a b) c s = ms a c s @ ms b c s"

text \<open>
  A match object: \<^verbatim>\<open>match.index\<close>, \<^verbatim>\<open>match[0]\<close> and the capture groups.
  \<open>grp m k\<close> is \<^verbatim>\<open>match[k]\<close> at the type \<^verbatim>\<open>string\<close> that TypeScript gives it: a group
  that took no part in the match, \<^verbatim>\<open>undefined\<close> in JavaScript, reads as the empty string.
  The source reads a group that can be undefined only under \<^verbatim>\<open>||\<close>, which treats
  \<^verbatim>\<open>undefined\<close> and the empty string alike; every other group it reads takes part in
  every match of its pattern (\<open>matches_definite\<close>, \<open>matchFirst_definite\<close> and
  \<open>definite_patterns\<close> below).
\<close>

record rmatch =
  index :: nat
  whole :: string
  groups :: captures

definition grp :: "rmatch \<Rightarrow> nat \<Rightarrow> string" where
  "grp m k = (case map_of (groups m) k of Some v \<Rightarrow> v | None \<Rightarrow> [])"

text \<open>
  The leftmost match in the text \<open>t\<close>, which starts at position \<open>i\<close> of the whole string.
\<close>

fun searchFrom :: "regex \<Rightarrow> nat \<Rightarrow> string \<Rightarrow> rmatch option" where
  "searchFrom re i t =
     (case ms re [] t of
        (c, w, r) # _ \<Rightarrow> Some \<lparr>index = i, whole = w, groups = c\<rparr>
      | [] \<Rightarrow> (case t of [] \<Rightarrow> None | _ # t' \<Rightarrow> searchFrom re (Suc i) t'))"

text \<open>
  \<^verbatim>\<open>re.exec(s)\<close> for a pattern with the \<^verbatim>\<open>g\<close> flag: the search starts at
  \<open>lastIndex\<close>; the result is the match and the new \<open>lastIndex\<close> (the end of the match, or 0
  when there is none).
\<close>

definition exec :: "regex \<Rightarrow> string \<Rightarrow> nat \<Rightarrow> rmatch option \<times> nat" where
  "exec re s lastIndex =
     (if length s < lastIndex then (None, 0)
      else case searchFrom re lastIndex (drop lastIndex s) of
             None \<Rightarrow> (None, 0)
           | Some m \<Rightarrow> (Some m, index m + length (whole m)))"

text \<open>\<^verbatim>\<open>s.match(re)\<close> for a pattern without the \<^verbatim>\<open>g\<close> flag.\<close>

definition matchFirst :: "regex \<Rightarrow> string \<Rightarrow> rmatch option" where
  "matchFirst re s = searchFrom re 0 s"

lemma searchFrom_index: "searchFrom re i t = Some m \<Longrightarrow> i \<le> index m"
proof (induction t arbitrary: i)
  case Nil
  then show ?case by (auto split: list.splits)
next
  case (Cons x t)
  show ?case
  proof (cases "ms re [] (x # t)")
    case Nil
    with Cons.prems have "searchFrom re (Suc i) t = Some m" by simp
    from Cons.IH [OF this] show ?thesis by simp
  next
    case (Cons p ps)
    with Cons.prems show ?thesis by (cases p) auto
  qed
qed

lemma exec_Some:
  assumes "exec re s lastIndex = (Some m, lastIndex')"
  shows "lastIndex \<le> length s" and "lastIndex \<le> index m"
    and "lastIndex' = index m + length (whole m)"
  using assms searchFrom_index [of re lastIndex "drop lastIndex s" m]
  by (auto simp: exec_def split: if_splits option.splits)

text \<open>
  The successive matches of a pattern with the \<^verbatim>\<open>g\<close> flag from \<open>lastIndex\<close> on, as
  \<^verbatim>\<open>String.prototype.match\<close> collects them: each search starts where the match before
  ended, and one position further after an empty match.
\<close>

function matches :: "regex \<Rightarrow> string \<Rightarrow> nat \<Rightarrow> rmatch list" where
  "matches re s lastIndex =
     (case exec re s lastIndex of
        (None, _) \<Rightarrow> []
      | (Some m, lastIndex') \<Rightarrow>
          m # matches re s (if whole m = [] then Suc lastIndex' else lastIndex'))"
  by pat_completeness auto
termination
proof (relation "measure (\<lambda>(re, s, lastIndex). Suc (length s) - lastIndex)", goal_cases)
  case 1
  show ?case by simp
next
  case (2 re s lastIndex x lastIndex' m)
  then have e: "exec re s lastIndex = (Some m, lastIndex')" by simp
  from exec_Some [OF e] show ?case by (cases "whole m") auto
qed

text \<open>\<^verbatim>\<open>s.match(re) || []\<close> for a pattern with the \<^verbatim>\<open>g\<close> flag: the matched texts.\<close>

definition matchG :: "regex \<Rightarrow> string \<Rightarrow> string list" where
  "matchG re s = map whole (matches re s 0)"

text \<open>
  The loop \<^verbatim>\<open>while ((match = re.exec(s)) !== null) { body }\<close> with the state the body
  updates as an accumulator. A match that leaves \<open>lastIndex\<close> where it was makes the
  source's loop find the same match again for ever: \<open>Diverges\<close>.
\<close>

function whileExec :: "regex \<Rightarrow> string \<Rightarrow> (rmatch \<Rightarrow> 'a \<Rightarrow> 'a) \<Rightarrow> nat \<Rightarrow> 'a \<Rightarrow> 'a outcome" where
  "whileExec re s body lastIndex acc =
     (case exec re s lastIndex of
        (None, _) \<Rightarrow> Returns acc
      | (Some match, lastIndex') \<Rightarrow>
          if lastIndex < lastIndex' then whileExec re s body lastIndex' (body match acc)
          else Diverges)"
  by pat_completeness auto
termination
proof (relation "measure (\<lambda>(re, s, body, lastIndex, acc). Suc (length s) - lastIndex)", goal_cases)
  case 1
  show ?case by simp
next
  case (2 re s body lastIndex acc x lastIndex' m)
  then have e: "exec re s lastIndex = (Some m, lastIndex')" and l: "lastIndex < lastIndex'"
    by simp_all
  from exec_Some (1) [OF e] l show ?case by auto
qed

declare matches.simps [simp del] whileExec.simps [simp del]

section \<open>The data model\<close>

datatype changeType = insertion | deletion | moveFrom | moveTo

record TrackChange =
  type :: changeType
  author :: string
  date :: string
  "text" :: string
  id :: "string option"

record Comment =
  id :: string
  author :: string
  date :: string
  "text" :: string
  commentedText :: "string option"

record moves =
  "from" :: "TrackChange list"
  to :: "TrackChange list"

section \<open>The patterns of the source\<close>

text \<open>\<^verbatim>\<open>/<w:t[^>]*>([^<]*)<\/w:t>/\<close>, with and without the \<^verbatim>\<open>g\<close> flag.\<close>

definition tRegex :: regex where
  "tRegex =
     Seq (Lit ''<w:t'') (Seq (Star (NotCh (CHR ''>''))) (Seq (Lit ''>'')
       (Seq (Group 1 (Star (NotCh (CHR ''<'')))) (Lit ''</w:t>''))))"

text \<open>\<^verbatim>\<open>/<w:delText[^>]*>([^<]*)<\/w:delText>/\<close>, with and without the \<^verbatim>\<open>g\<close> flag.\<close>

definition delTextRegex :: regex where
  "delTextRegex =
     Seq (Lit ''<w:delText'') (Seq (Star (NotCh (CHR ''>''))) (Seq (Lit ''>'')
       (Seq (Group 1 (Star (NotCh (CHR ''<'')))) (Lit ''</w:delText>''))))"

text \<open>
  \<^verbatim>\<open>/<w:TAG\s+([^>]*)>([\s\S]*?)<\/w:TAG>|<w:TAG\s+([^>]*)\/>/g\<close>: the four patterns
  for tracked changes differ in the tag only.
\<close>

definition changeRegex :: "string \<Rightarrow> regex" where
  "changeRegex tag =
     Alt (Seq (Lit (''<w:'' @ tag)) (Seq (Plus Space) (Seq (Group 1 (Star (NotCh (CHR ''>''))))
            (Seq (Lit ''>'') (Seq (Group 2 (Lazy AnyChar)) (Lit (''</w:'' @ tag @ ''>'')))))))
         (Seq (Lit (''<w:'' @ tag)) (Seq (Plus Space) (Seq (Group 3 (Star (NotCh (CHR ''>''))))
            (Lit ''/>''))))"

definition insRegex :: regex where
  "insRegex = changeRegex ''ins''"

definition delRegex :: regex where
  "delRegex = changeRegex ''del''"

definition moveFromRegex :: regex where
  "moveFromRegex = changeRegex ''moveFrom''"

definition moveToRegex :: regex where
  "moveToRegex = changeRegex ''moveTo''"

text \<open>\<^verbatim>\<open>/w:author="([^"]*)"/\<close>, \<^verbatim>\<open>/w:date="([^"]*)"/\<close> and \<^verbatim>\<open>/w:id="([^"]*)"/\<close>.\<close>

definition attrRegex :: "string \<Rightarrow> regex" where
  "attrRegex name =
     Seq (Lit (name @ [CHR ''='', CHR 0x22])) (Seq (Group 1 (Star (NotCh (CHR 0x22)))) (Lit [CHR 0x22]))"

definition authorRegex :: regex where
  "authorRegex = attrRegex ''w:author''"

definition dateRegex :: regex where
  "dateRegex = attrRegex ''w:date''"

definition idRegex :: regex where
  "idRegex = attrRegex ''w:id''"

text \<open>\<^verbatim>\<open>/<w:comment\s+([^>]*)>([\s\S]*?)<\/w:comment>/g\<close>\<close>

definition commentRegex :: regex where
  "commentRegex =
     Seq (Lit ''<w:comment'') (Seq (Plus Space) (Seq (Group 1 (Star (NotCh (CHR ''>''))))
       (Seq (Lit ''>'') (Seq (Group 2 (Lazy AnyChar)) (Lit ''</w:comment>'')))))"

text \<open>
  \<^verbatim>\<open>/<w:commentRangeStart[^>]*w:id="(\d+)"[^>]*\/>/g\<close> and the same for
  \<^verbatim>\<open>commentRangeEnd\<close>.
\<close>

definition rangeRegex :: "string \<Rightarrow> regex" where
  "rangeRegex tag =
     Seq (Lit (''<w:'' @ tag)) (Seq (Star (NotCh (CHR ''>'')))
       (Seq (Lit [CHR ''w'', CHR '':'', CHR ''i'', CHR ''d'', CHR ''='', CHR 0x22])
         (Seq (Group 1 (Plus Digit)) (Seq (Lit [CHR 0x22]) (Seq (Star (NotCh (CHR ''>'')))
           (Lit ''/>''))))))"

definition startRegex :: regex where
  "startRegex = rangeRegex ''commentRangeStart''"

definition endRegex :: regex where
  "endRegex = rangeRegex ''commentRangeEnd''"

section \<open>The run-text extractor\<close>

text \<open>
  \<^verbatim>\<open>element.match(/.../g) || []\<close> gives the matched texts; each is matched again without
  the \<^verbatim>\<open>g\<close> flag for its group 1, and the results are joined.
\<close>

definition extractTextFromElement :: "string \<Rightarrow> string" where
  "extractTextFromElement element =
     concat (map (\<lambda>match. case matchFirst tRegex match of
                              Some textContent \<Rightarrow> grp textContent 1
                            | None \<Rightarrow> [])
                 (matchG tRegex element))"

text \<open>The same steps inside \<^verbatim>\<open>parseDeletions\<close>, on the delete-text tag.\<close>

definition extractDelText :: "string \<Rightarrow> string" where
  "extractDelText content =
     concat (map (\<lambda>m. case matchFirst delTextRegex m of
                          Some textContent \<Rightarrow> grp textContent 1
                        | None \<Rightarrow> [])
                 (matchG delTextRegex content))"

section \<open>The change scanners\<close>

text \<open>\<^verbatim>\<open>a || b\<close> on strings: the empty string is falsy.\<close>

definition orElse :: "string \<Rightarrow> string \<Rightarrow> string" where
  "orElse a b = (if a \<noteq> [] then a else b)"

text \<open>
  The body of the four scanning loops, which the source writes out four times; they differ
  in the \<^verbatim>\<open>type\<close> they record and in how the text is extracted from the content.
  The accumulator is the array the body pushes to.
\<close>

definition changeBody ::
  "changeType \<Rightarrow> (string \<Rightarrow> string) \<Rightarrow> rmatch \<Rightarrow> TrackChange list \<Rightarrow> TrackChange list" where
  "changeBody ty extract match changes =
     (let attrs = orElse (grp match 1) (orElse (grp match 3) []);
          content = orElse (grp match 2) [];
          authorMatch = matchFirst authorRegex attrs;
          dateMatch = matchFirst dateRegex attrs;
          idMatch = matchFirst idRegex attrs;
          txt = extract content
      in if txt \<noteq> [] then
           changes @
             [\<lparr>type = ty,
               author = (case authorMatch of Some a \<Rightarrow> grp a 1 | None \<Rightarrow> ''Unknown''),
               date = (case dateMatch of Some d \<Rightarrow> grp d 1 | None \<Rightarrow> []),
               text = txt,
               id = (case idMatch of Some i \<Rightarrow> Some (grp i 1) | None \<Rightarrow> None)\<rparr>]
         else changes)"

definition parseInsertions :: "string \<Rightarrow> TrackChange list outcome" where
  "parseInsertions documentXml =
     whileExec insRegex documentXml (changeBody insertion extractTextFromElement) 0 []"

definition parseDeletions :: "string \<Rightarrow> TrackChange list outcome" where
  "parseDeletions documentXml =
     whileExec delRegex documentXml (changeBody deletion extractDelText) 0 []"

definition parseMoves :: "string \<Rightarrow> moves outcome" where
  "parseMoves documentXml =
     andThen (whileExec moveFromRegex documentXml (changeBody moveFrom extractTextFromElement) 0 [])
       (\<lambda>movesFrom. andThen
          (whileExec moveToRegex documentXml (changeBody moveTo extractTextFromElement) 0 [])
          (\<lambda>movesTo. Returns \<lparr>from = movesFrom, to = movesTo\<rparr>))"

section \<open>The comment scanner\<close>

definition commentBody :: "rmatch \<Rightarrow> Comment list \<Rightarrow> Comment list" where
  "commentBody match comments =
     (let attrs = grp match 1;
          content = grp match 2;
          idMatch = matchFirst idRegex attrs;
          authorMatch = matchFirst authorRegex attrs;
          dateMatch = matchFirst dateRegex attrs;
          txt = extractTextFromElement content
      in comments @
           [\<lparr>id = (case idMatch of Some i \<Rightarrow> grp i 1 | None \<Rightarrow> []),
             author = (case authorMatch of Some a \<Rightarrow> grp a 1 | None \<Rightarrow> ''Unknown''),
             date = (case dateMatch of Some d \<Rightarrow> grp d 1 | None \<Rightarrow> []),
             text = txt,
             commentedText = None\<rparr>])"

text \<open>\<^verbatim>\<open>if (!commentsXml) return []\<close>: \<^verbatim>\<open>null\<close> and the empty string are falsy.\<close>

definition parseComments :: "string option \<Rightarrow> Comment list outcome" where
  "parseComments commentsXml =
     (case commentsXml of
        None \<Rightarrow> Returns []
      | Some xml \<Rightarrow>
          if xml = [] then Returns []
          else whileExec commentRegex xml commentBody 0 [])"

section \<open>The comment-anchor resolver\<close>

record commentRange =
  start :: int
  "end" :: int

text \<open>
  The first two loops of \<^verbatim>\<open>findCommentedText\<close>, which fill the map
  \<^verbatim>\<open>commentRanges\<close>: every start marker sets the entry of its id, every end marker
  updates the \<^verbatim>\<open>end\<close> of an entry that exists.
\<close>

definition startBody :: "rmatch \<Rightarrow> (string \<rightharpoonup> commentRange) \<Rightarrow> (string \<rightharpoonup> commentRange)" where
  "startBody match ranges = ranges(grp match 1 \<mapsto> \<lparr>start = int (index match), end = - 1\<rparr>)"

definition endBody :: "rmatch \<Rightarrow> (string \<rightharpoonup> commentRange) \<Rightarrow> (string \<rightharpoonup> commentRange)" where
  "endBody match ranges =
     (case ranges (grp match 1) of
        Some rng \<Rightarrow> ranges(grp match 1 \<mapsto> rng\<lparr>end := int (index match)\<rparr>)
      | None \<Rightarrow> ranges)"

definition commentRanges :: "string \<Rightarrow> (string \<rightharpoonup> commentRange) outcome" where
  "commentRanges documentXml =
     andThen (whileExec startRegex documentXml startBody 0 Map.empty)
       (\<lambda>ranges. whileExec endRegex documentXml endBody 0 ranges)"

text \<open>\<^verbatim>\<open>s.substring(a, b)\<close>: both ends are clamped to the string, and swapped when \<open>b < a\<close>.\<close>

definition substring :: "string \<Rightarrow> int \<Rightarrow> int \<Rightarrow> string" where
  "substring s a b =
     (let n = int (length s);
          a' = min (max a 0) n;
          b' = min (max b 0) n;
          lo = min a' b';
          hi = max a' b'
      in take (nat (hi - lo)) (drop (nat lo) s))"

text \<open>The function the last statement of \<^verbatim>\<open>findCommentedText\<close> maps over the comments.\<close>

definition enrich :: "string \<Rightarrow> (string \<rightharpoonup> commentRange) \<Rightarrow> Comment \<Rightarrow> Comment" where
  "enrich documentXml ranges comment =
     (case ranges (id comment) of
        Some rng \<Rightarrow>
          if 0 \<le> start rng \<and> start rng < end rng then
            comment\<lparr>commentedText :=
              Some (extractTextFromElement (substring documentXml (start rng) (end rng)))\<rparr>
          else comment
      | None \<Rightarrow> comment)"

definition findCommentedText :: "string \<Rightarrow> Comment list \<Rightarrow> Comment list outcome" where
  "findCommentedText documentXml comments =
     andThen (commentRanges documentXml)
       (\<lambda>ranges. Returns (map (enrich documentXml ranges) comments))"

section \<open>The entry point\<close>

text \<open>
  The archive library is outside the repository. \<^verbatim>\<open>JSZip.loadAsync\<close> is a parameter: it
  rejects with an error or gives the archive. The archive gives the file of a path
  (\<^verbatim>\<open>zip.file(path)\<close> is \<^verbatim>\<open>null\<close> for a path it has no entry for), and a file is
  what \<^verbatim>\<open>file.async("text")\<close> settles with: the text, or the error it rejects with when
  the data of the entry cannot be read.
\<close>

record TrackChangesResult =
  insertions :: "TrackChange list"
  deletions :: "TrackChange list"
  moves :: moves
  comments :: "Comment list"

type_synonym buffer = "8 word list"

type_synonym zipObject = "error + string"

type_synonym zip = "string \<rightharpoonup> zipObject"

definition asyncText :: "zipObject \<Rightarrow> string outcome" where
  "asyncText file = (case file of Inl e \<Rightarrow> Throws e | Inr t \<Rightarrow> Returns t)"

definition MalformedPackage :: error where
  "MalformedPackage = Error ''Invalid .docx file: missing word/document.xml''"

definition extractTrackChanges :: "(buffer \<Rightarrow> error + zip) \<Rightarrow> buffer \<Rightarrow> TrackChangesResult outcome" where
  "extractTrackChanges loadAsync docxBuffer =
     (case loadAsync docxBuffer of
        Inl e \<Rightarrow> Throws e
      | Inr zip' \<Rightarrow>
          (case zip' ''word/document.xml'' of
             None \<Rightarrow> Throws (Error ''Invalid .docx file: missing word/document.xml'')
           | Some documentFile \<Rightarrow>
                andThen (asyncText documentFile) (\<lambda>documentXml.
                andThen (case zip' ''word/comments.xml'' of
                           None \<Rightarrow> Returns None
                         | Some commentsFile \<Rightarrow>
                             andThen (asyncText commentsFile) (\<lambda>t. Returns (Some t)))
                  (\<lambda>commentsXml.
                andThen (parseInsertions documentXml) (\<lambda>ins.
                andThen (parseDeletions documentXml) (\<lambda>dels.
                andThen (parseMoves documentXml) (\<lambda>mvs.
                andThen (parseComments commentsXml) (\<lambda>parsed.
                andThen (findCommentedText documentXml parsed) (\<lambda>enriched.
                Returns \<lparr>insertions = ins, deletions = dels,
                         moves = mvs, comments = enriched\<rparr>)))))))))"

section \<open>Notions used to state the properties\<close>

text \<open>A pattern is \<open>nonempty\<close> when its shape alone shows that it matches no empty text.\<close>

fun nonempty :: "regex \<Rightarrow> bool" where
  "nonempty (Lit l) = (l \<noteq> [])"
| "nonempty (Star k) = False"
| "nonempty (Plus k) = True"
| "nonempty (Lazy k) = False"
| "nonempty (Group g r) = nonempty r"
| "nonempty (Seq a b) = (nonempty a \<or> nonempty b)"
| "nonempty (Alt a b) = (nonempty a \<and> nonempty b)"

text \<open>
  The capture groups that take part in every match of a pattern: those outside every
  alternation. Reading such a group never gives \<^verbatim>\<open>undefined\<close>.
\<close>

fun definite :: "regex \<Rightarrow> nat set" where
  "definite (Lit l) = {}"
| "definite (Star k) = {}"
| "definite (Plus k) = {}"
| "definite (Lazy k) = {}"
| "definite (Group g r) = insert g (definite r)"
| "definite (Seq a b) = definite a \<union> definite b"
| "definite (Alt a b) = definite a \<inter> definite b"

text \<open>The locals \<^verbatim>\<open>attrs\<close> and \<^verbatim>\<open>content\<close> of the scanning loops, for a match.\<close>

definition elementAttrs :: "rmatch \<Rightarrow> string" where
  "elementAttrs match = orElse (grp match 1) (orElse (grp match 3) [])"

definition elementContent :: "rmatch \<Rightarrow> string" where
  "elementContent match = orElse (grp match 2) []"

text \<open>
  \<open>hasAttribute name attrs\<close>: somewhere in \<open>attrs\<close> the text \<^verbatim>\<open>name="\<close> occurs with a
  closing quote after it (\<open>hasAttribute_iff\<close> below).
\<close>

fun hasAttribute :: "string \<Rightarrow> string \<Rightarrow> bool" where
  "hasAttribute name attrs =
     ((case stripPrefix (name @ [CHR ''='', CHR 0x22]) attrs of
         Some r \<Rightarrow> CHR 0x22 \<in> set r
       | None \<Rightarrow> False)
      \<or> (case attrs of [] \<Rightarrow> False | _ # rest \<Rightarrow> hasAttribute name rest))"

declare hasAttribute.simps [simp del]

text \<open>
  The positions of the markers that carry the id \<open>i\<close>, in the order in which the pattern
  \<open>re\<close> finds them in the document body.
\<close>

definition markers :: "regex \<Rightarrow> string \<Rightarrow> string \<Rightarrow> nat list" where
  "markers re documentXml i =
     map index (filter (\<lambda>m. grp m 1 = i) (matches re documentXml 0))"

text \<open>
  What the map \<^verbatim>\<open>commentRanges\<close> holds for an id once both loops have run: the start
  position, and the end position unless it still is the initial \<^verbatim>\<open>-1\<close>.
\<close>

definition recordedStart :: "string \<Rightarrow> string \<Rightarrow> int option" where
  "recordedStart documentXml i =
     (case commentRanges documentXml of
        Returns ranges \<Rightarrow> map_option start (ranges i)
      | _ \<Rightarrow> None)"

definition recordedEnd :: "string \<Rightarrow> string \<Rightarrow> int option" where
  "recordedEnd documentXml i =
     (case commentRanges documentXml of
        Returns ranges \<Rightarrow>
          (case ranges i of
             Some rng \<Rightarrow> if end rng = - 1 then None else Some (end rng)
           | None \<Rightarrow> None)
      | _ \<Rightarrow> None)"

text \<open>The last element of a list, if there is one.\<close>

definition lastOpt :: "'a list \<Rightarrow> 'a option" where
  "lastOpt xs = (if xs = [] then None else Some (last xs))"

text \<open>A non-empty string of decimal digits, which is what \<^verbatim>\<open>(\d+)\<close> captures.\<close>

definition digits :: "string \<Rightarrow> bool" where
  "digits i \<longleftrightarrow> i \<noteq> [] \<and> list_all (inClass Digit) i"






text \<open>
  The markup of an element of a tracked change: the tag, the attributes with the white
  space before them (nothing for a bare opening tag), the content and the closing tag.
  The markup of a delete-text element with its attributes and its text.
\<close>

definition element :: "string \<Rightarrow> string \<Rightarrow> string \<Rightarrow> string" where
  "element tag attrs content =
     (''<w:'' @ tag) @ attrs @ ''>'' @ content @ (''</w:'' @ tag @ ''>'')"


text \<open>
  Archives, loaders, document bodies and comments for the examples. \<open>plainZip\<close> and
  \<open>styledZip\<close> have the same document body and no comments part; the second one also holds a
  styles part. \<open>unreadableZip\<close> has an entry for the document body whose data cannot be read,
  as when the deflated data of the entry do not have the size the entry declares.
\<close>

definition plainZip :: zip where
  "plainZip = [''word/document.xml'' \<mapsto> Inr ''<w:p/>'']"

definition styledZip :: zip where
  "styledZip =
     [''word/document.xml'' \<mapsto> Inr ''<w:p/>'', ''word/styles.xml'' \<mapsto> Inr ''<w:styles/>'']"

definition unreadableZip :: zip where
  "unreadableZip =
     [''word/document.xml'' \<mapsto> Inl (Error ''Bug : uncompressed data size mismatch'')]"

definition loadUnreadable :: "buffer \<Rightarrow> error + zip" where
  "loadUnreadable b = Inr unreadableZip"

definition loadTwo :: "buffer \<Rightarrow> error + zip" where
  "loadTwo b = (if b = [] then Inr plainZip else Inr styledZip)"

definition emptyZip :: zip where
  "emptyZip = Map.empty"

definition loadEmpty :: "buffer \<Rightarrow> error + zip" where
  "loadEmpty b = Inr emptyZip"

definition bareDoc :: string where
  "bareDoc = ''<w:ins ><w:r><w:t>x</w:t></w:r></w:ins>''"



definition anchoredDoc :: string where
  "anchoredDoc = ''<w:commentRangeStart w:id=\"1\"/><w:r><w:t>target phrase</w:t></w:r><w:commentRangeEnd w:id=\"1\"/>''"

definition repeatedDoc :: string where
  "repeatedDoc = ''<w:commentRangeStart w:id=\"1\"/><w:t>a</w:t><w:commentRangeStart w:id=\"1\"/><w:t>b</w:t><w:commentRangeEnd w:id=\"1\"/><w:t>c</w:t><w:commentRangeEnd w:id=\"1\"/>''"

definition markedDoc :: string where
  "markedDoc = ''<w:commentRangeStart w:id=\"a1\"/><w:t>x</w:t><w:commentRangeEnd w:id=\"a1\"/>''"

definition commentWithId :: "string \<Rightarrow> Comment" where
  "commentWithId i = \<lparr>id = i, author = ''Unknown'', date = [], text = ''note'', commentedText = None\<rparr>"

section \<open>Facts about the matcher\<close>

lemma stripPrefix_Some: "stripPrefix l s = Some r \<longleftrightarrow> s = l @ r"
  by (induction l s rule: stripPrefix.induct) auto

lemma stripPrefixD: "stripPrefix l s = Some r \<Longrightarrow> s = l @ r"
  by (simp add: stripPrefix_Some)

lemma stripPrefix_append [simp]: "stripPrefix l (l @ r) = Some r"
  by (simp add: stripPrefix_Some)

lemma greedy_sound: "(w, r) \<in> set (greedy k s) \<Longrightarrow> s = w @ r \<and> (\<forall>x\<in>set w. inClass k x)"
  by (induction k s arbitrary: w r rule: greedy.induct) (fastforce split: if_splits)+

lemma greedy1_sound:
  "(w, r) \<in> set (greedy1 k s) \<Longrightarrow> s = w @ r \<and> w \<noteq> [] \<and> (\<forall>x\<in>set w. inClass k x)"
  by (cases s) (fastforce split: if_splits dest: greedy_sound)+

lemma lazy_sound: "(w, r) \<in> set (lazy k s) \<Longrightarrow> s = w @ r \<and> (\<forall>x\<in>set w. inClass k x)"
  by (induction k s arbitrary: w r rule: lazy.induct) (fastforce split: if_splits)+

lemma ms_sound: "(c', w, s') \<in> set (ms r c s) \<Longrightarrow> s = w @ s'"
proof (induction r arbitrary: c c' w s s')
  case (Lit l)
  then show ?case by (auto dest: stripPrefixD [OF sym] split: option.splits)
next
  case (Seq a b)
  then show ?case by fastforce
qed (auto dest: greedy_sound greedy1_sound lazy_sound)

lemma ms_nonempty: "nonempty r \<Longrightarrow> (c', w, s') \<in> set (ms r c s) \<Longrightarrow> w \<noteq> []"
proof (induction r arbitrary: c c' w s s')
  case (Lit l)
  then show ?case by (auto split: option.splits)
next
  case (Group g r)
  then show ?case by fastforce
next
  case (Seq a b)
  then show ?case by fastforce
next
  case (Alt a b)
  then show ?case by fastforce
qed (auto dest: greedy1_sound)

lemma ms_Nil_nonempty:
  assumes "nonempty re"
  shows "ms re c [] = []"
proof (cases "ms re c []")
  case Nil
  then show ?thesis .
next
  case (Cons p ps)
  obtain c' w r where "p = (c', w, r)" by (cases p)
  with Cons have in_ms: "(c', w, r) \<in> set (ms re c [])" by simp
  from ms_sound [OF in_ms] ms_nonempty [OF assms in_ms] show ?thesis by simp
qed

lemma ms_Lit_iff: "(c', w, s') \<in> set (ms (Lit l) c s) \<longleftrightarrow> c' = c \<and> w = l \<and> s = l @ s'"
proof -
  have "stripPrefix l s = Some s' \<longleftrightarrow> s = l @ s'" by (rule stripPrefix_Some)
  then show ?thesis by (cases "stripPrefix l s") auto
qed

lemma ms_Star_iff: "(c', w, s') \<in> set (ms (Star k) c s) \<longleftrightarrow> c' = c \<and> (w, s') \<in> set (greedy k s)"
  by auto

lemma ms_Plus_iff: "(c', w, s') \<in> set (ms (Plus k) c s) \<longleftrightarrow> c' = c \<and> (w, s') \<in> set (greedy1 k s)"
  by auto

lemma ms_Lazy_iff: "(c', w, s') \<in> set (ms (Lazy k) c s) \<longleftrightarrow> c' = c \<and> (w, s') \<in> set (lazy k s)"
  by auto

lemma ms_Group_iff:
  "(c', w, s') \<in> set (ms (Group g r) c s) \<longleftrightarrow>
     (\<exists>c0. c' = (g, w) # c0 \<and> (c0, w, s') \<in> set (ms r c s))"
  by (force simp: image_iff)

lemma ms_Seq_iff:
  "(c', w, s') \<in> set (ms (Seq a b) c s) \<longleftrightarrow>
     (\<exists>c1 w1 s1 w2. (c1, w1, s1) \<in> set (ms a c s) \<and> (c', w2, s') \<in> set (ms b c1 s1) \<and> w = w1 @ w2)"
proof
  assume "(c', w, s') \<in> set (ms (Seq a b) c s)"
  then obtain p where p: "p \<in> set (ms a c s)"
    and q: "(c', w, s') \<in> set (case p of (c1, w1, s1) \<Rightarrow>
              map (\<lambda>(c2, w2, s2). (c2, w1 @ w2, s2)) (ms b c1 s1))"
    unfolding ms.simps set_concat set_map by blast
  obtain c1 w1 s1 where p': "p = (c1, w1, s1)" by (cases p)
  from q have "(c', w, s') \<in> (\<lambda>(c2, w2, s2). (c2, w1 @ w2, s2)) ` set (ms b c1 s1)"
    by (simp add: p')
  then obtain x where x: "x \<in> set (ms b c1 s1)"
    and e: "(c', w, s') = (case x of (c2, w2, s2) \<Rightarrow> (c2, w1 @ w2, s2))"
    by blast
  obtain c2 w2 s2 where "x = (c2, w2, s2)" by (cases x)
  with x e have "(c', w2, s') \<in> set (ms b c1 s1)" and "w = w1 @ w2"
    by simp_all
  with p p' show "\<exists>c1 w1 s1 w2. (c1, w1, s1) \<in> set (ms a c s) \<and> (c', w2, s') \<in> set (ms b c1 s1) \<and> w = w1 @ w2"
    by blast
next
  assume "\<exists>c1 w1 s1 w2. (c1, w1, s1) \<in> set (ms a c s) \<and> (c', w2, s') \<in> set (ms b c1 s1) \<and> w = w1 @ w2"
  then obtain c1 w1 s1 w2 where a: "(c1, w1, s1) \<in> set (ms a c s)"
    and b: "(c', w2, s') \<in> set (ms b c1 s1)" and w: "w = w1 @ w2" by blast
  from b w have "(c', w, s') \<in> set (map (\<lambda>(c2, w2, s2). (c2, w1 @ w2, s2)) (ms b c1 s1))"
    by (force simp: image_iff)
  with a show "(c', w, s') \<in> set (ms (Seq a b) c s)"
    by (force simp: image_iff)
qed

lemma ms_Alt_iff:
  "(c', w, s') \<in> set (ms (Alt a b) c s) \<longleftrightarrow>
     (c', w, s') \<in> set (ms a c s) \<or> (c', w, s') \<in> set (ms b c s)"
  by auto

lemmas ms_iffs = ms_Lit_iff ms_Star_iff ms_Plus_iff ms_Lazy_iff ms_Group_iff ms_Seq_iff ms_Alt_iff

lemma ms_definite:
  "(c', w, s') \<in> set (ms r c s) \<Longrightarrow> g \<in> definite r \<union> fst ` set c \<Longrightarrow> g \<in> fst ` set c'"
proof (induction r arbitrary: c c' w s s')
  case (Seq a b)
  from Seq.prems(1) obtain c1 w1 s1 w2 where
    a: "(c1, w1, s1) \<in> set (ms a c s)" and b: "(c', w2, s') \<in> set (ms b c1 s1)"
    unfolding ms_Seq_iff by blast
  from Seq.prems(2) consider "g \<in> definite a \<union> fst ` set c" | "g \<in> definite b" by auto
  then show ?case
  proof cases
    case 1
    from Seq.IH(1) [OF a 1] have "g \<in> definite b \<union> fst ` set c1" by simp
    from Seq.IH(2) [OF b this] show ?thesis .
  next
    case 2
    then have "g \<in> definite b \<union> fst ` set c1" by simp
    from Seq.IH(2) [OF b this] show ?thesis .
  qed
next
  case (Group h r)
  from Group.prems(1) obtain c0 where c': "c' = (h, w) # c0" and r: "(c0, w, s') \<in> set (ms r c s)"
    unfolding ms_Group_iff by blast
  show ?case
  proof (cases "g = h")
    case True
    with c' show ?thesis by simp
  next
    case False
    with Group.prems(2) have "g \<in> definite r \<union> fst ` set c" by simp
    from Group.IH [OF r this] c' show ?thesis by simp
  qed
next
  case (Alt a b)
  from Alt.prems(1) consider "(c', w, s') \<in> set (ms a c s)" | "(c', w, s') \<in> set (ms b c s)"
    unfolding ms_Alt_iff by blast
  then show ?case
  proof cases
    case 1
    from Alt.IH(1) [OF 1] Alt.prems(2) show ?thesis by auto
  next
    case 2
    from Alt.IH(2) [OF 2] Alt.prems(2) show ?thesis by auto
  qed
qed (auto split: option.splits)

lemma searchFrom_Some:
  "searchFrom re i t = Some m \<Longrightarrow>
     \<exists>pre post ps. t = pre @ whole m @ post \<and> index m = i + length pre \<and>
       ms re [] (whole m @ post) = (groups m, whole m, post) # ps \<and>
       (\<forall>j < length pre. ms re [] (drop j t) = [])"
proof (induction t arbitrary: i)
  case Nil
  show ?case
  proof (cases "ms re [] []")
    case Nil
    with \<open>searchFrom re i [] = Some m\<close> show ?thesis by simp
  next
    case (Cons p ps)
    obtain c w r where p: "p = (c, w, r)" by (cases p)
    with Cons Nil.prems have m: "m = \<lparr>index = i, whole = w, groups = c\<rparr>" by simp
    from Cons p have "(c, w, r) \<in> set (ms re [] [])" by simp
    then have "[] = w @ r" by (rule ms_sound)
    with Cons p m show ?thesis by simp
  qed
next
  case (Cons x t)
  show ?case
  proof (cases "ms re [] (x # t)")
    case Nil
    with Cons.prems have "searchFrom re (Suc i) t = Some m" by simp
    from Cons.IH [OF this] obtain pre post ps where
      *: "t = pre @ whole m @ post" "index m = Suc i + length pre"
         "ms re [] (whole m @ post) = (groups m, whole m, post) # ps"
         "\<forall>j < length pre. ms re [] (drop j t) = []"
      by blast
    have "\<forall>j < length (x # pre). ms re [] (drop j (x # t)) = []"
      using Nil *(4) by (auto simp: less_Suc_eq_0_disj)
    with * show ?thesis
      by (intro exI [of _ "x # pre"] exI [of _ post] exI [of _ ps]) simp
  next
    case (Cons p ps)
    obtain c w r where p: "p = (c, w, r)" by (cases p)
    with Cons Cons.prems have m: "m = \<lparr>index = i, whole = w, groups = c\<rparr>" by simp
    from Cons p have "(c, w, r) \<in> set (ms re [] (x # t))" by simp
    then have "x # t = w @ r" by (rule ms_sound)
    with Cons p m show ?thesis
      by (intro exI [of _ "[]"] exI [of _ r] exI [of _ ps]) simp
  qed
qed

lemma exec_nonempty:
  assumes "nonempty re" and "exec re s lastIndex = (Some m, lastIndex')"
  shows "whole m \<noteq> []" and "lastIndex < lastIndex'"
proof -
  from assms(2) have sf: "searchFrom re lastIndex (drop lastIndex s) = Some m"
    by (auto simp: exec_def split: if_splits option.splits)
  from searchFrom_Some [OF this] obtain post ps where
    "ms re [] (whole m @ post) = (groups m, whole m, post) # ps" by blast
  then have "(groups m, whole m, post) \<in> set (ms re [] (whole m @ post))" by simp
  with assms(1) show "whole m \<noteq> []" by (rule ms_nonempty)
  with exec_Some [OF assms(2)] show "lastIndex < lastIndex'" by (cases "whole m") auto
qed

lemma matches_in_ms:
  "m \<in> set (matches re s lastIndex) \<Longrightarrow> \<exists>t r. (groups m, whole m, r) \<in> set (ms re [] t)"
proof (induction re s lastIndex rule: matches.induct)
  case (1 re s lastIndex)
  show ?case
  proof (cases "exec re s lastIndex")
    case (Pair mo lastIndex')
    show ?thesis
    proof (cases mo)
      case None
      with Pair "1.prems" show ?thesis by (simp add: matches.simps)
    next
      case (Some m')
      with Pair have e: "exec re s lastIndex = (Some m', lastIndex')" by simp
      with "1.prems" have "m = m' \<or> m \<in> set (matches re s (if whole m' = [] then Suc lastIndex' else lastIndex'))"
        by (subst (asm) matches.simps) simp
      then show ?thesis
      proof
        assume "m = m'"
        from e have "searchFrom re lastIndex (drop lastIndex s) = Some m'"
          by (auto simp: exec_def split: if_splits option.splits)
        from searchFrom_Some [OF this] obtain post ps where
          "ms re [] (whole m' @ post) = (groups m', whole m', post) # ps" by blast
        then have "(groups m', whole m', post) \<in> set (ms re [] (whole m' @ post))" by simp
        with \<open>m = m'\<close> show ?thesis by blast
      next
        assume "m \<in> set (matches re s (if whole m' = [] then Suc lastIndex' else lastIndex'))"
        with "1.IH" [OF e [symmetric] refl] show ?thesis by blast
      qed
    qed
  qed
qed

lemma matches_definite:
  assumes "m \<in> set (matches re s lastIndex)" and "g \<in> definite re"
  shows "map_of (groups m) g \<noteq> None"
proof -
  from matches_in_ms [OF assms(1)] obtain t r where
    "(groups m, whole m, r) \<in> set (ms re [] t)" by blast
  from ms_definite [OF this, of g] assms(2) show ?thesis
    by (simp add: map_of_eq_None_iff)
qed

lemma matchFirst_definite:
  assumes "matchFirst re s = Some m" and "g \<in> definite re"
  shows "map_of (groups m) g \<noteq> None"
proof -
  from assms(1) have "searchFrom re 0 s = Some m" by (simp add: matchFirst_def)
  from searchFrom_Some [OF this] obtain post ps where
    "ms re [] (whole m @ post) = (groups m, whole m, post) # ps" by blast
  then have "(groups m, whole m, post) \<in> set (ms re [] (whole m @ post))" by simp
  from ms_definite [OF this, of g] assms(2) show ?thesis
    by (simp add: map_of_eq_None_iff)
qed

lemma definite_patterns:
  "definite commentRegex = {1, 2}"
  "definite (rangeRegex tag) = {1}"
  "definite (attrRegex name) = {1}"
  "definite tRegex = {1}"
  "definite delTextRegex = {1}"
  by (auto simp: commentRegex_def rangeRegex_def attrRegex_def tRegex_def delTextRegex_def)

lemma matches_Nil_nonempty: "nonempty re \<Longrightarrow> matches re [] 0 = []"
  by (simp add: matches.simps exec_def ms_Nil_nonempty)

lemma whileExec_fold:
  "nonempty re \<Longrightarrow> whileExec re s body lastIndex acc = Returns (fold body (matches re s lastIndex) acc)"
proof (induction re s body lastIndex acc rule: whileExec.induct)
  case (1 re s body lastIndex acc)
  show ?case
  proof (cases "exec re s lastIndex")
    case (Pair mo lastIndex')
    show ?thesis
    proof (cases mo)
      case None
      with Pair show ?thesis by (simp add: whileExec.simps matches.simps)
    next
      case (Some m)
      with Pair have e: "exec re s lastIndex = (Some m, lastIndex')" by simp
      from exec_nonempty [OF "1.prems" e] have ne: "whole m \<noteq> []" and lt: "lastIndex < lastIndex'" .
      from "1.IH" [OF e [symmetric] refl lt "1.prems"]
      have "whileExec re s body lastIndex' (body m acc) = Returns (fold body (matches re s lastIndex') (body m acc))" .
      with e ne lt show ?thesis
        by (subst whileExec.simps, subst matches.simps) simp
    qed
  qed
qed

lemma nonempty_changeRegex: "nonempty (changeRegex tag)"
  by (simp add: changeRegex_def)

lemma nonempty_rangeRegex: "nonempty (rangeRegex tag)"
  by (simp add: rangeRegex_def)

lemma nonempty_commentRegex: "nonempty commentRegex"
  by (simp add: commentRegex_def)

section \<open>The loops of the source return\<close>

lemma parseInsertions_fold:
  "parseInsertions documentXml =
     Returns (fold (changeBody insertion extractTextFromElement) (matches insRegex documentXml 0) [])"
  by (simp add: parseInsertions_def insRegex_def whileExec_fold nonempty_changeRegex)

lemma parseDeletions_fold:
  "parseDeletions documentXml =
     Returns (fold (changeBody deletion extractDelText) (matches delRegex documentXml 0) [])"
  by (simp add: parseDeletions_def delRegex_def whileExec_fold nonempty_changeRegex)

lemma parseMoves_fold:
  "parseMoves documentXml =
     Returns \<lparr>from = fold (changeBody moveFrom extractTextFromElement)
                       (matches moveFromRegex documentXml 0) [],
              to = fold (changeBody moveTo extractTextFromElement)
                     (matches moveToRegex documentXml 0) []\<rparr>"
  by (simp add: parseMoves_def moveFromRegex_def moveToRegex_def whileExec_fold
      nonempty_changeRegex andThen_def)

lemma parseComments_fold:
  "parseComments (Some xml) = Returns (fold commentBody (matches commentRegex xml 0) [])"
  by (simp add: parseComments_def whileExec_fold nonempty_commentRegex matches_Nil_nonempty)

lemma commentRanges_fold:
  "commentRanges documentXml =
     Returns (fold endBody (matches endRegex documentXml 0)
               (fold startBody (matches startRegex documentXml 0) Map.empty))"
  by (simp add: commentRanges_def startRegex_def endRegex_def whileExec_fold
      nonempty_rangeRegex andThen_def)

lemma findCommentedText_Returns:
  "\<exists>ranges. commentRanges documentXml = Returns ranges \<and>
     findCommentedText documentXml cs = Returns (map (enrich documentXml ranges) cs)"
  by (simp add: findCommentedText_def commentRanges_fold andThen_def)

section \<open>The package reader\<close>

text \<open>
  C2 as stated fails: the archive \<open>unreadableZip\<close> has an entry \<^verbatim>\<open>word/document.xml\<close> and no
  entry \<^verbatim>\<open>word/comments.xml\<close>, and the extraction throws, with the error that reading the
  entry rejects with.
\<close>

theorem unreadable_document_counterexample:
  "loadUnreadable [] = Inr unreadableZip
   \<and> unreadableZip ''word/document.xml'' \<noteq> None
   \<and> unreadableZip ''word/comments.xml'' = None
   \<and> extractTrackChanges loadUnreadable [] = Throws (Error ''Bug : uncompressed data size mismatch'')"
  by (simp add: loadUnreadable_def unreadableZip_def extractTrackChanges_def asyncText_def
      andThen_def)

text \<open>
  C2, as the code has it: when the archive has no entry \<^verbatim>\<open>word/document.xml\<close>, the
  extraction throws the error for a malformed package; when it has that entry, the text of
  the entry can be read, and it has no entry \<^verbatim>\<open>word/comments.xml\<close>, the extraction
  returns a result whose comments are empty.
\<close>

theorem extractTrackChanges_missing_parts:
  assumes "loadAsync docxBuffer = Inr z"
  shows "(z ''word/document.xml'' = None \<longrightarrow>
            extractTrackChanges loadAsync docxBuffer = Throws MalformedPackage)
       \<and> (\<forall>documentXml. z ''word/document.xml'' = Some (Inr documentXml)
              \<and> z ''word/comments.xml'' = None \<longrightarrow>
            (\<exists>r. extractTrackChanges loadAsync docxBuffer = Returns r \<and> comments r = []))"
  using assms
  by (simp add: extractTrackChanges_def MalformedPackage_def asyncText_def parseInsertions_fold
      parseDeletions_fold parseMoves_fold parseComments_def findCommentedText_def
      commentRanges_fold andThen_def)

theorem extractTrackChanges_missing_parts_witness:
  "extractTrackChanges loadEmpty [] = Throws MalformedPackage
   \<and> (\<exists>r. extractTrackChanges loadTwo [] = Returns r \<and> comments r = [])"
proof -
  have "loadEmpty [] = Inr emptyZip" by (simp add: loadEmpty_def)
  from extractTrackChanges_missing_parts [of loadEmpty "[]" emptyZip, OF this]
  have a: "extractTrackChanges loadEmpty [] = Throws MalformedPackage"
    by (simp add: emptyZip_def)
  have "loadTwo [] = Inr plainZip" by (simp add: loadTwo_def)
  from extractTrackChanges_missing_parts [of loadTwo "[]" plainZip, OF this]
  have "\<exists>r. extractTrackChanges loadTwo [] = Returns r \<and> comments r = []"
    by (simp add: plainZip_def)
  with a show ?thesis by simp
qed



text \<open>
  C8: a call of the entry point keeps no state (every pattern is created anew, with
  \<open>lastIndex\<close> 0), so its outcome is determined by what the archive library gives for the
  buffer: two calls for which the library gives the same answer, as for the same buffer,
  have the same outcome. And a call always comes back: no scanning loop runs for ever.
\<close>

theorem extractTrackChanges_deterministic:
  assumes "loadAsync b = loadAsync' b'"
  shows "extractTrackChanges loadAsync b = extractTrackChanges loadAsync' b'
       \<and> extractTrackChanges loadAsync b \<noteq> Diverges"
proof -
  have "extractTrackChanges loadAsync b \<noteq> Diverges"
    by (simp add: extractTrackChanges_def asyncText_def parseInsertions_fold
        parseDeletions_fold parseMoves_fold parseComments_def whileExec_fold
        nonempty_commentRegex findCommentedText_def commentRanges_fold andThen_def
        split: sum.splits option.splits)
  with assms show ?thesis by (simp add: extractTrackChanges_def)
qed

theorem extractTrackChanges_deterministic_witness:
  "loadTwo [1] = loadTwo [2]
   \<and> extractTrackChanges loadTwo [1] = extractTrackChanges loadTwo [2]
   \<and> extractTrackChanges loadTwo [1] \<noteq> Diverges"
proof -
  have h: "loadTwo [1] = loadTwo [2]" by (simp add: loadTwo_def)
  from extractTrackChanges_deterministic [of loadTwo "[1]" loadTwo "[2]", OF h] h
  show ?thesis by blast
qed

section \<open>The scanners\<close>

lemma changeBody_append: "changeBody ty ex m changes = changes @ changeBody ty ex m []"
  by (simp add: changeBody_def Let_def)

lemma fold_changeBody:
  "fold (changeBody ty ex) xs acc = acc @ concat (map (\<lambda>m. changeBody ty ex m []) xs)"
proof (induction xs arbitrary: acc)
  case Nil
  show ?case by simp
next
  case (Cons m xs)
  show ?case by (simp add: Cons.IH) (subst changeBody_append, simp)
qed

lemma text_changeBody:
  "map TrackChange.text (changeBody ty ex m []) =
     (if ex (elementContent m) \<noteq> [] then [ex (elementContent m)] else [])"
  by (simp add: changeBody_def Let_def elementContent_def)

lemma text_fold_changeBody:
  "map TrackChange.text (fold (changeBody ty ex) xs []) =
     filter (\<lambda>t. t \<noteq> []) (map (\<lambda>m. ex (elementContent m)) xs)"
proof -
  have "map TrackChange.text (concat (map (\<lambda>m. changeBody ty ex m []) xs)) =
          filter (\<lambda>t. t \<noteq> []) (map (\<lambda>m. ex (elementContent m)) xs)"
    by (induction xs) (simp_all add: text_changeBody)
  then show ?thesis by (simp add: fold_changeBody)
qed

lemma text_fold_commentBody:
  "map Comment.text (fold commentBody xs acc) =
     map Comment.text acc @ map (\<lambda>m. extractTextFromElement (grp m 2)) xs"
  by (induction xs arbitrary: acc) (simp_all add: commentBody_def Let_def)

lemma changeBody_emits:
  "changeBody ty ex m [] =
     (if ex (elementContent m) \<noteq> [] then
        [\<lparr>type = ty,
          author = (case matchFirst authorRegex (elementAttrs m) of Some a \<Rightarrow> grp a 1 | None \<Rightarrow> ''Unknown''),
          date = (case matchFirst dateRegex (elementAttrs m) of Some d \<Rightarrow> grp d 1 | None \<Rightarrow> []),
          text = ex (elementContent m),
          id = (case matchFirst idRegex (elementAttrs m) of Some i \<Rightarrow> Some (grp i 1) | None \<Rightarrow> None)\<rparr>]
      else [])"
  by (simp add: changeBody_def Let_def elementAttrs_def elementContent_def)

text \<open>
  C1: the texts of the entries a change scanner returns are the extracted texts of the
  elements its pattern matches, in order, without the empty ones: an insertion, deletion,
  move-from or move-to element whose extracted text is empty has no entry. The comment
  scanner returns one comment for every element its pattern matches, with the extracted
  text, empty or not.
\<close>

theorem empty_changes_dropped_comments_kept:
  "(\<exists>ins. parseInsertions documentXml = Returns ins \<and>
      map TrackChange.text ins =
        filter (\<lambda>t. t \<noteq> [])
          (map (\<lambda>m. extractTextFromElement (elementContent m)) (matches insRegex documentXml 0)))
   \<and> (\<exists>dels. parseDeletions documentXml = Returns dels \<and>
      map TrackChange.text dels =
        filter (\<lambda>t. t \<noteq> [])
          (map (\<lambda>m. extractDelText (elementContent m)) (matches delRegex documentXml 0)))
   \<and> (\<exists>mvs. parseMoves documentXml = Returns mvs \<and>
      map TrackChange.text (from mvs) =
        filter (\<lambda>t. t \<noteq> [])
          (map (\<lambda>m. extractTextFromElement (elementContent m)) (matches moveFromRegex documentXml 0)) \<and>
      map TrackChange.text (to mvs) =
        filter (\<lambda>t. t \<noteq> [])
          (map (\<lambda>m. extractTextFromElement (elementContent m)) (matches moveToRegex documentXml 0)))
   \<and> (\<exists>cs. parseComments (Some commentsXml) = Returns cs \<and>
      map Comment.text cs =
        map (\<lambda>m. extractTextFromElement (grp m 2)) (matches commentRegex commentsXml 0))"
  by (simp add: parseInsertions_fold parseDeletions_fold parseMoves_fold parseComments_fold
      text_fold_changeBody text_fold_commentBody)

lemma hasAttribute_iff:
  "hasAttribute name attrs \<longleftrightarrow>
     (\<exists>pre v post. attrs = pre @ name @ [CHR ''='', CHR 0x22] @ v @ [CHR 0x22] @ post)"
proof
  show "hasAttribute name attrs \<Longrightarrow>
      \<exists>pre v post. attrs = pre @ name @ [CHR ''='', CHR 0x22] @ v @ [CHR 0x22] @ post"
  proof (induction attrs)
    case Nil
    then show ?case
      by (subst (asm) hasAttribute.simps) (auto split: option.splits dest: stripPrefixD)
  next
    case (Cons x attrs)
    from Cons.prems consider
      (here) r where "stripPrefix (name @ [CHR ''='', CHR 0x22]) (x # attrs) = Some r" "CHR 0x22 \<in> set r"
      | (later) "hasAttribute name attrs"
      by (subst (asm) hasAttribute.simps) (auto split: option.splits)
    then show ?case
    proof cases
      case here
      from here(2) obtain v post where "r = v @ [CHR 0x22] @ post"
        by (auto simp: in_set_conv_decomp)
      with stripPrefixD [OF here(1)] have "x # attrs = [] @ name @ [CHR ''='', CHR 0x22] @ v @ [CHR 0x22] @ post"
        by simp
      then show ?thesis by blast
    next
      case later
      from Cons.IH [OF this] obtain pre v post where
        "attrs = pre @ name @ [CHR ''='', CHR 0x22] @ v @ [CHR 0x22] @ post" by blast
      then have "x # attrs = (x # pre) @ name @ [CHR ''='', CHR 0x22] @ v @ [CHR 0x22] @ post"
        by simp
      then show ?thesis by blast
    qed
  qed
next
  assume "\<exists>pre v post. attrs = pre @ name @ [CHR ''='', CHR 0x22] @ v @ [CHR 0x22] @ post"
  then obtain pre v post where a: "attrs = pre @ name @ [CHR ''='', CHR 0x22] @ v @ [CHR 0x22] @ post"
    by blast
  have s: "stripPrefix (name @ [CHR ''='', CHR 0x22])
             ((name @ [CHR ''='', CHR 0x22]) @ v @ [CHR 0x22] @ post) = Some (v @ [CHR 0x22] @ post)"
    by (rule stripPrefix_append)
  have "hasAttribute name (pre @ (name @ [CHR ''='', CHR 0x22]) @ v @ [CHR 0x22] @ post)"
  proof (induction pre)
    case Nil
    show ?case by (subst hasAttribute.simps) (simp only: s append_Nil, simp)
  next
    case (Cons x pre)
    then show ?case by (subst hasAttribute.simps) simp
  qed
  with a show "hasAttribute name attrs" by simp
qed

lemma matchFirst_attrRegex:
  assumes "matchFirst (attrRegex name) attrs = Some m"
  shows "hasAttribute name attrs"
proof -
  from assms have "searchFrom (attrRegex name) 0 attrs = Some m" by (simp add: matchFirst_def)
  from searchFrom_Some [OF this] obtain pre post ps where
    a: "attrs = pre @ whole m @ post" and
    "ms (attrRegex name) [] (whole m @ post) = (groups m, whole m, post) # ps" by blast
  then have "(groups m, whole m, post) \<in> set (ms (attrRegex name) [] (whole m @ post))" by simp
  then obtain v where "whole m = (name @ [CHR ''='', CHR 0x22]) @ v @ [CHR 0x22]"
    unfolding attrRegex_def ms_iffs by blast
  with a have "attrs = pre @ name @ [CHR ''='', CHR 0x22] @ v @ [CHR 0x22] @ post" by simp
  then show ?thesis unfolding hasAttribute_iff by blast
qed

text \<open>
  C5: every change scanner returns, and what it returns are the records of the elements
  its pattern matches, in order. In the record of a matched element the author is
  \<^verbatim>\<open>"Unknown"\<close> when the attributes have no \<^verbatim>\<open>w:author="..."\<close>, the date is empty when
  they have no \<^verbatim>\<open>w:date="..."\<close>, and the id is undefined when they have no
  \<^verbatim>\<open>w:id="..."\<close>.
\<close>

theorem missing_attributes_default:
  "(\<exists>ins. parseInsertions documentXml = Returns ins \<and>
      ins = concat (map (\<lambda>m. changeBody insertion extractTextFromElement m [])
                        (matches insRegex documentXml 0)))
   \<and> (\<exists>dels. parseDeletions documentXml = Returns dels \<and>
      dels = concat (map (\<lambda>m. changeBody deletion extractDelText m [])
                         (matches delRegex documentXml 0)))
   \<and> (\<exists>mvs. parseMoves documentXml = Returns mvs \<and>
      from mvs = concat (map (\<lambda>m. changeBody moveFrom extractTextFromElement m [])
                             (matches moveFromRegex documentXml 0)) \<and>
      to mvs = concat (map (\<lambda>m. changeBody moveTo extractTextFromElement m [])
                           (matches moveToRegex documentXml 0)))
   \<and> (\<forall>ty ex m c. c \<in> set (changeBody ty ex m []) \<longrightarrow>
        (\<not> hasAttribute ''w:author'' (elementAttrs m) \<longrightarrow> TrackChange.author c = ''Unknown'') \<and>
        (\<not> hasAttribute ''w:date'' (elementAttrs m) \<longrightarrow> TrackChange.date c = []) \<and>
        (\<not> hasAttribute ''w:id'' (elementAttrs m) \<longrightarrow> TrackChange.id c = None))"
proof -
  have "TrackChange.author c = ''Unknown''"
    if "c \<in> set (changeBody ty ex m [])" "\<not> hasAttribute ''w:author'' (elementAttrs m)"
    for ty ex m c
    using that matchFirst_attrRegex [of "''w:author''" "elementAttrs m"]
    by (cases "matchFirst authorRegex (elementAttrs m)")
       (auto simp: changeBody_emits authorRegex_def split: if_splits)
  moreover have "TrackChange.date c = []"
    if "c \<in> set (changeBody ty ex m [])" "\<not> hasAttribute ''w:date'' (elementAttrs m)"
    for ty ex m c
    using that matchFirst_attrRegex [of "''w:date''" "elementAttrs m"]
    by (cases "matchFirst dateRegex (elementAttrs m)")
       (auto simp: changeBody_emits dateRegex_def split: if_splits)
  moreover have "TrackChange.id c = None"
    if "c \<in> set (changeBody ty ex m [])" "\<not> hasAttribute ''w:id'' (elementAttrs m)"
    for ty ex m c
    using that matchFirst_attrRegex [of "''w:id''" "elementAttrs m"]
    by (cases "matchFirst idRegex (elementAttrs m)")
       (auto simp: changeBody_emits idRegex_def split: if_splits)
  ultimately show ?thesis
    by (simp add: parseInsertions_fold parseDeletions_fold parseMoves_fold fold_changeBody)
qed

theorem missing_attributes_default_witness:
  "\<exists>c. parseInsertions bareDoc = Returns [c]
      \<and> \<not> hasAttribute ''w:author'' (elementAttrs (hd (matches insRegex bareDoc 0)))
      \<and> \<not> hasAttribute ''w:date'' (elementAttrs (hd (matches insRegex bareDoc 0)))
      \<and> \<not> hasAttribute ''w:id'' (elementAttrs (hd (matches insRegex bareDoc 0)))
      \<and> TrackChange.author c = ''Unknown'' \<and> TrackChange.date c = [] \<and> TrackChange.id c = None"
proof -
  define m where "m = hd (matches insRegex bareDoc 0)"
  define c where "c = hd (changeBody insertion extractTextFromElement m [])"
  have ms: "matches insRegex bareDoc 0 = [m]"
    unfolding m_def by code_simp
  have cb: "changeBody insertion extractTextFromElement m [] = [c]"
    unfolding c_def m_def by code_simp
  have na: "\<not> hasAttribute ''w:author'' (elementAttrs m)"
    "\<not> hasAttribute ''w:date'' (elementAttrs m)"
    "\<not> hasAttribute ''w:id'' (elementAttrs m)"
    unfolding m_def by code_simp+
  from missing_attributes_default [of bareDoc]
  have p: "parseInsertions bareDoc =
      Returns (concat (map (\<lambda>m. changeBody insertion extractTextFromElement m [])
                           (matches insRegex bareDoc 0)))"
    and d: "\<forall>ty ex m c. c \<in> set (changeBody ty ex m []) \<longrightarrow>
        (\<not> hasAttribute ''w:author'' (elementAttrs m) \<longrightarrow> TrackChange.author c = ''Unknown'') \<and>
        (\<not> hasAttribute ''w:date'' (elementAttrs m) \<longrightarrow> TrackChange.date c = []) \<and>
        (\<not> hasAttribute ''w:id'' (elementAttrs m) \<longrightarrow> TrackChange.id c = None)"
    by blast+
  from d [rule_format, of c insertion extractTextFromElement m] cb na
  have "TrackChange.author c = ''Unknown'' \<and> TrackChange.date c = [] \<and> TrackChange.id c = None"
    by simp
  moreover from p ms cb have "parseInsertions bareDoc = Returns [c]" by simp
  ultimately show ?thesis using na unfolding m_def by blast
qed

subsection \<open>A document body with one deletion element\<close>

















































section \<open>The resolver\<close>

lemma enrich_frame: "enrich documentXml ranges c = c\<lparr>commentedText := commentedText (enrich documentXml ranges c)\<rparr>"
  by (simp add: enrich_def split: option.splits)

text \<open>
  C7: the resolver returns as many comments as it is given, in the same order; each
  output comment has the id, author, date and text of the input comment at its place, and
  differs from it in the anchored text at most.
\<close>

theorem findCommentedText_frame:
  "\<exists>out. findCommentedText documentXml cs = Returns out
     \<and> length out = length cs
     \<and> map Comment.id out = map Comment.id cs
     \<and> map Comment.author out = map Comment.author cs
     \<and> map Comment.date out = map Comment.date cs
     \<and> map Comment.text out = map Comment.text cs
     \<and> out = map (\<lambda>(c, c'). c\<lparr>commentedText := commentedText c'\<rparr>) (zip cs out)"
proof -
  from findCommentedText_Returns obtain ranges where
    r: "findCommentedText documentXml cs = Returns (map (enrich documentXml ranges) cs)"
    by blast
  have f: "Comment.id (enrich documentXml ranges c) = Comment.id c"
    "Comment.author (enrich documentXml ranges c) = Comment.author c"
    "Comment.date (enrich documentXml ranges c) = Comment.date c"
    "Comment.text (enrich documentXml ranges c) = Comment.text c" for c
    by (simp_all add: enrich_def split: option.splits)
  have "map (enrich documentXml ranges) cs =
          map (\<lambda>(c, c'). c\<lparr>commentedText := commentedText c'\<rparr>) (zip cs (map (enrich documentXml ranges) cs))"
    by (induction cs) (simp_all add: enrich_frame [symmetric])
  with r f show ?thesis by (simp add: comp_def)
qed

lemma rangeRegex_group:
  assumes "(c, w, r) \<in> set (ms (rangeRegex tag) [] t)"
  shows "\<exists>d. map_of c 1 = Some d \<and> digits d"
proof -
  from assms obtain d t' r' where "c = [(1, d)]" and "(d, r') \<in> set (greedy1 Digit t')"
    unfolding rangeRegex_def ms_iffs by blast
  with greedy1_sound [of d r' Digit t'] show ?thesis
    by (simp add: digits_def list_all_iff)
qed

lemma matches_rangeRegex_digits:
  assumes "m \<in> set (matches (rangeRegex tag) s lastIndex)"
  shows "digits (grp m 1)"
proof -
  from matches_in_ms [OF assms] obtain t r where
    "(groups m, whole m, r) \<in> set (ms (rangeRegex tag) [] t)" by blast
  from rangeRegex_group [OF this] show ?thesis by (auto simp: grp_def)
qed

lemma markers_digits:
  assumes "\<not> digits i"
  shows "markers (rangeRegex tag) documentXml i = []"
proof -
  have "filter (\<lambda>m. grp m 1 = i) (matches (rangeRegex tag) documentXml 0) = []"
    using assms matches_rangeRegex_digits [of _ tag documentXml 0]
    by (auto simp: filter_empty_conv)
  then show ?thesis by (simp add: markers_def)
qed

lemma lastOpt_simps [simp]: "lastOpt [] = None" "lastOpt (xs @ [x]) = Some x"
  by (simp_all add: lastOpt_def)

lemma fold_startBody:
  "fold startBody xs M i =
     (case lastOpt (map index (filter (\<lambda>m. grp m 1 = i) xs)) of
        None \<Rightarrow> M i
      | Some p \<Rightarrow> Some \<lparr>start = int p, end = - 1\<rparr>)"
  by (induction xs rule: rev_induct) (simp_all add: startBody_def)

lemma fold_endBody:
  "fold endBody xs M i =
     (case M i of
        None \<Rightarrow> None
      | Some rng \<Rightarrow>
          (case lastOpt (map index (filter (\<lambda>m. grp m 1 = i) xs)) of
             None \<Rightarrow> Some rng
           | Some q \<Rightarrow> Some (rng\<lparr>end := int q\<rparr>)))"
  by (induction xs rule: rev_induct) (auto simp: endBody_def split: option.splits)

lemma commentRanges_lookup:
  assumes "commentRanges documentXml = Returns ranges"
  shows "ranges i =
     (case lastOpt (markers startRegex documentXml i) of
        None \<Rightarrow> None
      | Some p \<Rightarrow>
          Some \<lparr>start = int p,
                end = (case lastOpt (markers endRegex documentXml i) of
                         None \<Rightarrow> - 1
                       | Some q \<Rightarrow> int q)\<rparr>)"
  using assms
  by (auto simp: commentRanges_fold fold_endBody fold_startBody markers_def
      split: option.splits)

lemma recordedStart_markers:
  "recordedStart documentXml i = map_option int (lastOpt (markers startRegex documentXml i))"
  by (simp add: recordedStart_def commentRanges_fold fold_endBody fold_startBody markers_def
      split: option.splits)

lemma recordedEnd_markers:
  "recordedEnd documentXml i =
     (case lastOpt (markers startRegex documentXml i) of
        None \<Rightarrow> None
      | Some p \<Rightarrow> map_option int (lastOpt (markers endRegex documentXml i)))"
  by (auto simp: recordedEnd_def commentRanges_fold fold_endBody fold_startBody markers_def
      split: option.splits)

lemma substring_take_drop:
  assumes "0 \<le> a" and "a < b"
  shows "substring s a b = take (nat (b - a)) (drop (nat a) s)"
proof (cases "b \<le> int (length s)")
  case True
  with assms show ?thesis by (simp add: substring_def Let_def min_def max_def)
next
  case False
  show ?thesis
  proof (cases "a \<le> int (length s)")
    case True
    with False assms show ?thesis by (simp add: substring_def Let_def min_def max_def)
  next
    case False
    with assms show ?thesis by (simp add: substring_def Let_def min_def max_def)
  qed
qed

text \<open>
  C3: for a comment that comes without anchored text, as the comment scanner produces it,
  the resolver sets the anchored text exactly when a start position and an end position are
  recorded for the comment's id and the end is after the start; the anchored text then is
  the run text of the document body from the start position up to the end position.
  Otherwise it stays unset; in particular when the body has no range-end marker for the id.
\<close>

theorem commentedText_set_iff:
  "\<exists>out. findCommentedText documentXml cs = Returns out \<and> length out = length cs \<and>
     (\<forall>k < length cs. commentedText (cs ! k) = None \<longrightarrow>
        commentedText (out ! k) =
          (case (recordedStart documentXml (Comment.id (cs ! k)),
                 recordedEnd documentXml (Comment.id (cs ! k))) of
             (Some s, Some e) \<Rightarrow>
               if s < e
               then Some (extractTextFromElement (take (nat (e - s)) (drop (nat s) documentXml)))
               else None
           | _ \<Rightarrow> None)
        \<and> (markers endRegex documentXml (Comment.id (cs ! k)) = [] \<longrightarrow>
             commentedText (out ! k) = None))"
proof -
  from findCommentedText_Returns obtain ranges where
    cr: "commentRanges documentXml = Returns ranges" and
    r: "findCommentedText documentXml cs = Returns (map (enrich documentXml ranges) cs)"
    by blast
  have A: "commentedText (enrich documentXml ranges c) =
          (case (recordedStart documentXml (Comment.id c), recordedEnd documentXml (Comment.id c)) of
             (Some s, Some e) \<Rightarrow>
               if s < e
               then Some (extractTextFromElement (take (nat (e - s)) (drop (nat s) documentXml)))
               else None
           | _ \<Rightarrow> None)"
    if "commentedText c = None" for c
    using that commentRanges_lookup [OF cr, of "Comment.id c"]
    by (auto simp: enrich_def recordedStart_def recordedEnd_def cr substring_take_drop
        split: option.splits)
  have B: "recordedEnd documentXml i = None" if "markers endRegex documentXml i = []" for i
    using that by (simp add: recordedEnd_markers split: option.splits)
  from r A B show ?thesis by (auto split: option.splits)
qed

theorem commentedText_set_iff_witness:
  "\<exists>out. findCommentedText anchoredDoc [commentWithId ''1'', commentWithId ''2''] = Returns out
     \<and> commentedText (out ! 0) = Some ''target phrase''
     \<and> commentedText (out ! 1) = None"
proof -
  from commentedText_set_iff [of anchoredDoc "[commentWithId ''1'', commentWithId ''2'']"]
  obtain out where r: "findCommentedText anchoredDoc [commentWithId ''1'', commentWithId ''2''] = Returns out"
    and k: "\<forall>k < length [commentWithId ''1'', commentWithId ''2''].
        commentedText ([commentWithId ''1'', commentWithId ''2''] ! k) = None \<longrightarrow>
        commentedText (out ! k) =
          (case (recordedStart anchoredDoc (Comment.id ([commentWithId ''1'', commentWithId ''2''] ! k)),
                 recordedEnd anchoredDoc (Comment.id ([commentWithId ''1'', commentWithId ''2''] ! k))) of
             (Some s, Some e) \<Rightarrow>
               if s < e
               then Some (extractTextFromElement (take (nat (e - s)) (drop (nat s) anchoredDoc)))
               else None
           | _ \<Rightarrow> None)
        \<and> (markers endRegex anchoredDoc (Comment.id ([commentWithId ''1'', commentWithId ''2''] ! k)) = [] \<longrightarrow>
             commentedText (out ! k) = None)"
    by blast
  have s: "recordedStart anchoredDoc ''1'' = Some 0" "recordedEnd anchoredDoc ''1'' = Some 66"
    by code_simp+
  have t: "extractTextFromElement (take 66 anchoredDoc) = ''target phrase''"
    by code_simp
  have e: "recordedStart anchoredDoc ''2'' = None"
    by code_simp
  from k [rule_format, of 0] s t have "commentedText (out ! 0) = Some ''target phrase''"
    by (simp add: commentWithId_def)
  moreover from k [rule_format, of 1] e have "commentedText (out ! 1) = None"
    by (simp add: commentWithId_def)
  ultimately show ?thesis using r by blast
qed

text \<open>
  C4 as stated fails: in \<open>repeatedDoc\<close> the start marker for id 1 occurs twice, at the
  positions 0 and 43, and the recorded start is not the position of the first occurrence.
\<close>

theorem first_start_wins_counterexample:
  "1 < length (markers startRegex repeatedDoc ''1'')
   \<and> recordedStart repeatedDoc ''1'' \<noteq> Some (int (hd (markers startRegex repeatedDoc ''1'')))"
  by code_simp

text \<open>
  C4, as the code has it: when start markers for an id occur, the recorded start is the
  position of the last of them, each overwriting the entry of the one before; and when end
  markers for the id occur as well, the recorded end is the position of the last of them.
\<close>

theorem repeated_markers_last_wins:
  assumes "markers startRegex documentXml i \<noteq> []"
  shows "recordedStart documentXml i = Some (int (last (markers startRegex documentXml i)))
       \<and> (markers endRegex documentXml i \<noteq> [] \<longrightarrow>
            recordedEnd documentXml i = Some (int (last (markers endRegex documentXml i))))"
  using assms
  by (auto simp: recordedStart_markers recordedEnd_markers lastOpt_def)

theorem repeated_markers_last_wins_witness:
  "markers startRegex repeatedDoc ''1'' = [0, 43] \<and> markers endRegex repeatedDoc ''1'' = [86, 127]
   \<and> recordedStart repeatedDoc ''1'' = Some 43 \<and> recordedEnd repeatedDoc ''1'' = Some 127"
proof -
  have s: "markers startRegex repeatedDoc ''1'' = [0, 43]" by code_simp
  have e: "markers endRegex repeatedDoc ''1'' = [86, 127]" by code_simp
  from s have "markers startRegex repeatedDoc ''1'' \<noteq> []" by simp
  from repeated_markers_last_wins [OF this] s e show ?thesis by simp
qed

text \<open>
  C10: a comment whose id is not a non-empty string of decimal digits, the empty default
  id among them, leaves the resolver as it entered it.
\<close>

theorem non_numeric_id_never_anchored:
  "\<exists>out. findCommentedText documentXml cs = Returns out \<and> length out = length cs \<and>
     (\<forall>k < length cs. \<not> digits (Comment.id (cs ! k)) \<longrightarrow> out ! k = cs ! k)"
proof -
  from findCommentedText_Returns obtain ranges where
    cr: "commentRanges documentXml = Returns ranges" and
    r: "findCommentedText documentXml cs = Returns (map (enrich documentXml ranges) cs)"
    by blast
  have "enrich documentXml ranges c = c" if "\<not> digits (Comment.id c)" for c
    using commentRanges_lookup [OF cr, of "Comment.id c"]
      markers_digits [OF that, of "''commentRangeStart''" documentXml]
    by (simp add: enrich_def startRegex_def)
  with r show ?thesis by simp
qed

theorem non_numeric_id_never_anchored_witness:
  "\<not> digits ''a1'' \<and> \<not> digits []
   \<and> (\<exists>out. findCommentedText markedDoc [commentWithId ''a1'', commentWithId []] = Returns out
         \<and> out = [commentWithId ''a1'', commentWithId []])"
proof -
  have d: "\<not> digits ''a1''" "\<not> digits []" by (simp_all add: digits_def)
  from non_numeric_id_never_anchored [of markedDoc "[commentWithId ''a1'', commentWithId []]"]
  obtain out where r: "findCommentedText markedDoc [commentWithId ''a1'', commentWithId []] = Returns out"
    and l: "length out = length [commentWithId ''a1'', commentWithId []]"
    and k: "\<forall>k < length [commentWithId ''a1'', commentWithId []].
               \<not> digits (Comment.id ([commentWithId ''a1'', commentWithId []] ! k)) \<longrightarrow>
               out ! k = [commentWithId ''a1'', commentWithId []] ! k"
    by blast
  from k [rule_format, of 0] d have "out ! 0 = commentWithId ''a1''" by (simp add: commentWithId_def)
  moreover from k [rule_format, of 1] d have "out ! 1 = commentWithId []" by (simp add: commentWithId_def)
  ultimately have "out = [commentWithId ''a1'', commentWithId []]"
    using l by (simp add: list_eq_iff_nth_eq less_Suc_eq)
  with r d show ?thesis by simp
qed

end
